theory Spec2Isabelle
  imports Main
begin

section \<open>Max-tree construction (algo2.py): the embedding\<close>

text \<open>
  The program is Python over numpy arrays. The embedding keeps what the code does beyond
  returning values:
  \<^item> numpy indexing \<open>a[i]\<close> with an integer accepts \<open>-len \<le> i < len\<close> (a negative
    index counts from the end) and raises IndexError otherwise;
  \<^item> the recursion of \<open>find_pixel_parent\<close> is bounded by the run-time: by the
    interpreter's recursion limit, and, on the arrays of shape (resolution, 1) that
    \<open>maxtree_berger\<close> passes, by numpy's bound on the number of dimensions, since every
    nested call indexes with an array of one more dimension. The bound is a parameter
    (\<open>depth\<close>, \<open>limit\<close>); exceeding it is the error \<open>NestingError\<close>, which
    stands for the interpreter's RecursionError and for the IndexError that numpy raises
    for an index of too many dimensions;
  \<^item> arrays are mutated in place, so every operation that writes returns the array as it
    is afterwards, also when it raises;
  \<^item> indices are numpy int64 values (\<open>int\<close>, they can be negative after \<open>pi - 1\<close>),
    entries of the uint32 arrays \<open>parents\<close> and \<open>zparents\<close> are \<open>nat\<close> (no
    entry larger than \<open>resolution + 2\<close> is ever stored, so the 32-bit bound plays no
    role for images of fewer than \<open>2^32 - 2\<close> pixels);
  \<^item> a one-element array, as \<open>parents[index]\<close> is, stands for its element in
    comparisons and as an index;
  \<^item> intensities are integers.
\<close>

subsection \<open>Errors and array access\<close>

datatype error = IndexError | NestingError

definition row_index :: "nat \<Rightarrow> int \<Rightarrow> nat option" where
  \<comment> \<open>the position an integer index denotes in an array of \<open>n\<close> rows\<close>
  "row_index n i =
     (if 0 \<le> i \<and> i < int n then Some (nat i)
      else if - int n \<le> i \<and> i < 0 then Some (nat (i + int n))
      else None)"

definition getitem :: "'a list \<Rightarrow> int \<Rightarrow> error + 'a" where
  "getitem xs i = (case row_index (length xs) i of
                     None \<Rightarrow> Inl IndexError
                   | Some k \<Rightarrow> Inr (xs ! k))"

definition setitem :: "'a list \<Rightarrow> int \<Rightarrow> 'a \<Rightarrow> error + 'a list" where
  "setitem xs i v = (case row_index (length xs) i of
                       None \<Rightarrow> Inl IndexError
                     | Some k \<Rightarrow> Inr (xs[k := v]))"

definition npmod :: "int \<Rightarrow> int \<Rightarrow> int" where
  \<comment> \<open>numpy's integer remainder: the sign of the divisor, and 0 for a zero divisor\<close>
  "npmod a b = (if b = 0 then 0 else a mod b)"

subsection \<open>Neighbor enumeration\<close>

definition get_4_neighbors :: "int \<Rightarrow> int \<Rightarrow> int \<Rightarrow> int \<Rightarrow> int \<Rightarrow> int list" where
  "get_4_neighbors width height resolution pi pixel_row =
     (let top_pi = pi - width;
          bottom_pi = pi + width;
          left_pi = pi - 1;
          right_pi = pi + 1
      in (if top_pi \<ge> 0 then [top_pi] else [])
       @ (if bottom_pi < resolution then [bottom_pi] else [])
       @ (if npmod left_pi width = pixel_row then [left_pi] else [])
       @ (if npmod right_pi width = pixel_row then [right_pi] else []))"

definition get_8_neighbors :: "int \<Rightarrow> int \<Rightarrow> int \<Rightarrow> int \<Rightarrow> int \<Rightarrow> int list" where
  "get_8_neighbors width height resolution pi pixel_row =
     (let neighbors = get_4_neighbors width height resolution pi pixel_row;
          top_left_pi = pi - width - 1;
          top_right_pi = top_left_pi + 2;
          bottom_left_pi = pi + width - 1;
          bottom_right_pi = bottom_left_pi + 2
      in neighbors
       @ (if top_left_pi \<ge> 0 \<and> npmod top_left_pi width = pixel_row - 1
          then [top_left_pi] else [])
       @ (if top_right_pi \<ge> 0 \<and> npmod top_right_pi width = pixel_row - 1
          then [top_right_pi] else [])
       @ (if bottom_left_pi < resolution \<and> npmod bottom_left_pi width = pixel_row + 1
          then [bottom_left_pi] else [])
       @ (if bottom_right_pi < resolution \<and> npmod bottom_right_pi width = pixel_row + 1
          then [bottom_right_pi] else []))"

subsection \<open>Root lookup with path compression\<close>

text \<open>
  \<open>find_pixel_parent depth parents index\<close>: \<open>depth\<close> is the number of nested calls
  still allowed. The result is the array after the call and the value returned, or the
  exception raised. No write happens before the innermost call has returned, so an
  exception leaves the array as it was.
\<close>

fun find_pixel_parent :: "nat \<Rightarrow> nat list \<Rightarrow> int \<Rightarrow> nat list \<times> (error + nat)" where
  "find_pixel_parent 0 parents index = (parents, Inl NestingError)"
| "find_pixel_parent (Suc depth) parents index =
     (case getitem parents index of
        Inl e \<Rightarrow> (parents, Inl e)
      | Inr root \<Rightarrow>
          if int root \<noteq> index then
            (case find_pixel_parent depth parents (int root) of
               (parents', Inl e) \<Rightarrow> (parents', Inl e)
             | (parents', Inr r) \<Rightarrow>
                 (case setitem parents' index r of
                    Inl e \<Rightarrow> (parents', Inl e)
                  | Inr parents'' \<Rightarrow> (parents'', getitem parents'' index)))
          else (parents, getitem parents index))"

subsection \<open>Canonization\<close>

text \<open>The body of the loop of \<open>canonize\<close> for one pixel: the new array, or the exception.\<close>

definition canonize_pixel :: "int list \<Rightarrow> nat list \<Rightarrow> int \<Rightarrow> error + nat list" where
  "canonize_pixel img parents pi =
     (case getitem parents pi of
        Inl e \<Rightarrow> Inl e
      | Inr root \<Rightarrow>
          (case getitem img (int root) of
             Inl e \<Rightarrow> Inl e
           | Inr a \<Rightarrow>
               (case getitem parents (int root) of
                  Inl e \<Rightarrow> Inl e
                | Inr proot \<Rightarrow>
                    (case getitem img (int proot) of
                       Inl e \<Rightarrow> Inl e
                     | Inr b \<Rightarrow>
                         if a = b then setitem parents pi proot else Inr parents))))"

fun canonize :: "int list \<Rightarrow> nat list \<Rightarrow> int list \<Rightarrow> nat list \<times> error option" where
  "canonize img parents [] = (parents, None)"
| "canonize img parents (pi # nodes_order) =
     (case canonize_pixel img parents pi of
        Inl e \<Rightarrow> (parents, Some e)
      | Inr parents' \<Rightarrow> canonize img parents' nodes_order)"

subsection \<open>The construction pass\<close>

text \<open>
  The arrays alive during a call of \<open>maxtree_berger\<close>: the caller's image (its buffer),
  the flattened copy, and the two arrays the pass fills.
\<close>

record frame =
  image_arr :: "int list"
  flatten_image_arr :: "int list"
  parents_arr :: "nat list"
  zparents_arr :: "nat list"

text \<open>The list comprehension that keeps the neighbors whose parent is defined.\<close>

fun filter_defined :: "nat list \<Rightarrow> nat \<Rightarrow> int list \<Rightarrow> error + int list" where
  "filter_defined parents undefined_node [] = Inr []"
| "filter_defined parents undefined_node (n # neighbors) =
     (case getitem parents n of
        Inl e \<Rightarrow> Inl e
      | Inr v \<Rightarrow>
          (case filter_defined parents undefined_node neighbors of
             Inl e \<Rightarrow> Inl e
           | Inr kept \<Rightarrow> Inr (if v \<noteq> undefined_node then n # kept else kept)))"

text \<open>
  The merge loop of one pixel. \<open>zparents\<close> has shape (resolution, 1), and
  \<open>find_pixel_parent\<close> returns \<open>zparents[nei_pi]\<close> with the integer \<open>nei_pi\<close>:
  numpy gives that row as a view, which shares the memory of \<open>zparents\<close>, and not as a
  copy. Python assigns the targets of \<open>zparents[nei_root] = parents[nei_root] = pi\<close> from
  left to right, so the second assignment indexes with what row \<open>nei_pi\<close> of
  \<open>zparents\<close> holds after the first: \<open>nei_root\<close> is read again from that row. When
  \<open>nei_pi\<close> was its own root, the row now holds \<open>pi\<close>, and the second assignment
  writes \<open>parents[pi]\<close>.
\<close>

fun merge_nodes :: "nat \<Rightarrow> nat \<Rightarrow> int list \<Rightarrow> frame \<Rightarrow> frame \<times> error option" where
  "merge_nodes limit pi [] st = (st, None)"
| "merge_nodes limit pi (nei_pi # neighbors) st =
     (case find_pixel_parent limit (zparents_arr st) nei_pi of
        (zp, Inl e) \<Rightarrow> (st\<lparr>zparents_arr := zp\<rparr>, Some e)
      | (zp, Inr nei_root) \<Rightarrow>
          if int nei_root \<noteq> int pi then
            (case setitem zp (int nei_root) pi of
               Inl e \<Rightarrow> (st\<lparr>zparents_arr := zp\<rparr>, Some e)
             | Inr zp' \<Rightarrow>
                 (case getitem zp' nei_pi of
                    Inl e \<Rightarrow> (st\<lparr>zparents_arr := zp'\<rparr>, Some e)
                  | Inr nei_root' \<Rightarrow>
                      (case setitem (parents_arr st) (int nei_root') pi of
                         Inl e \<Rightarrow> (st\<lparr>zparents_arr := zp'\<rparr>, Some e)
                       | Inr ps' \<Rightarrow>
                           merge_nodes limit pi neighbors
                             (st\<lparr>zparents_arr := zp', parents_arr := ps'\<rparr>))))
          else merge_nodes limit pi neighbors (st\<lparr>zparents_arr := zp\<rparr>))"

text \<open>The body of the main loop for the pixel \<open>pi\<close>.\<close>

definition visit_pixel ::
  "nat \<Rightarrow> bool \<Rightarrow> int \<Rightarrow> int \<Rightarrow> int \<Rightarrow> nat \<Rightarrow> nat \<Rightarrow> frame \<Rightarrow> frame \<times> error option" where
  "visit_pixel limit connection8 width height resolution undefined_node pi st =
     (case setitem (parents_arr st) (int pi) pi of
        Inl e \<Rightarrow> (st, Some e)
      | Inr ps \<Rightarrow>
          (case setitem (zparents_arr st) (int pi) pi of
             Inl e \<Rightarrow> (st\<lparr>parents_arr := ps\<rparr>, Some e)
           | Inr zp \<Rightarrow>
               (let st1 = st\<lparr>parents_arr := ps, zparents_arr := zp\<rparr>;
                    pixel_row = npmod (int pi) width;
                    neighbors =
                      (if connection8
                       then get_8_neighbors width height resolution (int pi) pixel_row
                       else get_4_neighbors width height resolution (int pi) pixel_row)
                in case filter_defined (parents_arr st1) undefined_node neighbors of
                     Inl e \<Rightarrow> (st1, Some e)
                   | Inr kept \<Rightarrow> merge_nodes limit pi kept st1)))"

fun build_pass ::
  "nat \<Rightarrow> bool \<Rightarrow> int \<Rightarrow> int \<Rightarrow> int \<Rightarrow> nat \<Rightarrow> nat list \<Rightarrow> frame \<Rightarrow> frame \<times> error option" where
  "build_pass limit connection8 width height resolution undefined_node [] st = (st, None)"
| "build_pass limit connection8 width height resolution undefined_node (pi # pixels) st =
     (case visit_pixel limit connection8 width height resolution undefined_node pi st of
        (st', Some e) \<Rightarrow> (st', Some e)
      | (st', None) \<Rightarrow>
          build_pass limit connection8 width height resolution undefined_node pixels st')"

subsection \<open>The whole function\<close>

text \<open>
  A two-dimensional numpy array is its shape and its buffer in row-major order;
  \<open>flatten\<close> copies the buffer.
\<close>

record ndarray =
  shape0 :: nat
  shape1 :: nat
  data :: "int list"

text \<open>
  \<open>argsort\<close>: indices by ascending intensity. numpy leaves the order of equal keys open;
  this one keeps equal keys in ascending index order. \<open>is_argsort\<close> is what every outcome
  of numpy's sort satisfies.
\<close>

definition argsort :: "int list \<Rightarrow> nat list" where
  "argsort xs = sort_key (\<lambda>i. xs ! i) [0..<length xs]"

definition is_argsort :: "int list \<Rightarrow> nat list \<Rightarrow> bool" where
  "is_argsort xs sorted_pixels \<longleftrightarrow>
     distinct sorted_pixels \<and> set sorted_pixels = {0..<length xs}
     \<and> sorted (map (\<lambda>i. xs ! i) sorted_pixels)"

text \<open>
  \<open>maxtree_with\<close> is \<open>maxtree_berger\<close> from the line after the sort on. The parent array
  is returned flat: reshaping changes the shape only.
\<close>

definition initial_frame :: "ndarray \<Rightarrow> frame" where
  "initial_frame img =
     (let flatten_image = data img;
          resolution = length flatten_image;
          undefined_node = resolution + 2;
          parents = replicate resolution undefined_node
      in \<lparr>image_arr = data img, flatten_image_arr = flatten_image,
          parents_arr = parents, zparents_arr = parents\<rparr>)"

definition construct :: "nat \<Rightarrow> ndarray \<Rightarrow> bool \<Rightarrow> nat list \<Rightarrow> frame \<times> error option" where
  "construct limit img connection8 sorted_pixels =
     (let width = int (shape0 img);
          height = int (shape1 img);
          resolution = length (data img);
          undefined_node = resolution + 2
      in build_pass limit connection8 width height (int resolution) undefined_node
           (rev sorted_pixels) (initial_frame img))"

definition maxtree_with ::
  "nat \<Rightarrow> ndarray \<Rightarrow> bool \<Rightarrow> nat list \<Rightarrow> frame \<times> (error + nat list \<times> nat list)" where
  "maxtree_with limit img connection8 sorted_pixels =
     (case construct limit img connection8 sorted_pixels of
        (st, Some e) \<Rightarrow> (st, Inl e)
      | (st, None) \<Rightarrow>
          (case canonize (flatten_image_arr st) (parents_arr st) (map int sorted_pixels) of
             (ps, Some e) \<Rightarrow> (st\<lparr>parents_arr := ps\<rparr>, Inl e)
           | (ps, None) \<Rightarrow> (st\<lparr>parents_arr := ps\<rparr>, Inr (ps, sorted_pixels))))"

definition maxtree_berger ::
  "nat \<Rightarrow> ndarray \<Rightarrow> bool \<Rightarrow> frame \<times> (error + nat list \<times> nat list)" where
  "maxtree_berger limit img connection8 =
     maxtree_with limit img connection8 (argsort (data img))"


subsection \<open>Specification vocabulary\<close>

text \<open>
  \<open>chain parents index path r\<close>: following the parent pointers from \<open>index\<close> reaches
  the self-referencing entry \<open>r\<close>; \<open>path\<close> lists the rows visited before \<open>r\<close>, in
  order. Every read on the way is inside the array.
\<close>

inductive chain :: "nat list \<Rightarrow> int \<Rightarrow> nat list \<Rightarrow> nat \<Rightarrow> bool" where
  chain_root:
    "getitem parents index = Inr r \<Longrightarrow> int r = index \<Longrightarrow> chain parents index [] r"
| chain_step:
    "row_index (length parents) index = Some k \<Longrightarrow> int (parents ! k) \<noteq> index \<Longrightarrow>
     chain parents (int (parents ! k)) path r \<Longrightarrow> chain parents index (k # path) r"

text \<open>The array in which the rows of \<open>path\<close> point at \<open>r\<close> and the others are as before.\<close>

definition compressed :: "nat list \<Rightarrow> nat list \<Rightarrow> nat \<Rightarrow> nat list" where
  "compressed parents path r =
     map (\<lambda>k. if k \<in> set path then r else parents ! k) [0..<length parents]"

text \<open>
  The array of \<open>n + 1\<close> rows in which every row points at the next one and the last
  row at itself: from row 0 the path to the root has \<open>n\<close> rows.
\<close>

definition ascending_chain :: "nat \<Rightarrow> nat list" where
  "ascending_chain n = map Suc [0..<n] @ [n]"

text \<open>
  \<open>perm_ord\<close>: the order array lists every pixel index once. \<open>ranked ord t xs\<close>: the
  pixels from position \<open>t\<close> of the ascending order on (those the pass has visited when
  \<open>t\<close> are left) have in \<open>xs\<close> an entry that is a visited pixel at the same or an
  earlier position of the order. \<open>unvisited\<close>: the other rows still hold the sentinel.
\<close>

definition perm_ord :: "nat list \<Rightarrow> bool" where
  "perm_ord ord \<longleftrightarrow> distinct ord \<and> set ord = {0..<length ord}"

definition ranked :: "nat list \<Rightarrow> nat \<Rightarrow> nat list \<Rightarrow> bool" where
  "ranked ord t xs \<longleftrightarrow>
     length xs = length ord \<and>
     (\<forall>i. t \<le> i \<and> i < length ord \<longrightarrow> (\<exists>j. t \<le> j \<and> j \<le> i \<and> xs ! (ord ! i) = ord ! j))"

definition unvisited :: "nat list \<Rightarrow> nat \<Rightarrow> nat \<Rightarrow> nat list \<Rightarrow> bool" where
  "unvisited ord t undefined_node xs \<longleftrightarrow> (\<forall>i<t. xs ! (ord ! i) = undefined_node)"

definition pass_inv :: "nat list \<Rightarrow> nat \<Rightarrow> nat \<Rightarrow> frame \<Rightarrow> bool" where
  "pass_inv ord t undefined_node st \<longleftrightarrow>
     ranked ord t (parents_arr st) \<and> ranked ord t (zparents_arr st)
     \<and> unvisited ord t undefined_node (parents_arr st)"

text \<open>Neighbor indices that all denote rows of visited pixels.\<close>

definition visited_rows :: "nat list \<Rightarrow> nat \<Rightarrow> int list \<Rightarrow> bool" where
  "visited_rows ord t ns \<longleftrightarrow>
     (\<forall>x\<in>set ns. \<exists>i. t \<le> i \<and> i < length ord \<and> row_index (length ord) x = Some (ord ! i))"

text \<open>
  The parent of \<open>k\<close> is canonical: it is its own parent, or its parent has another
  intensity.
\<close>

definition canonical_at :: "int list \<Rightarrow> nat list \<Rightarrow> nat \<Rightarrow> bool" where
  "canonical_at img ps k \<longleftrightarrow> (let q = ps ! k in ps ! q = q \<or> img ! (ps ! q) \<noteq> img ! q)"

text \<open>\<open>reaches parents p r\<close>: following parent pointers from \<open>p\<close> arrives at \<open>r\<close>.\<close>

inductive reaches :: "nat list \<Rightarrow> nat \<Rightarrow> nat \<Rightarrow> bool" where
  reaches_self: "reaches parents p p"
| reaches_step: "p < length parents \<Longrightarrow> reaches parents (parents ! p) r \<Longrightarrow> reaches parents p r"

text \<open>
  An image of two rows and three columns on which the pass merges components and the
  canonization rewrites parents; it serves as the concrete input of the witnesses.
\<close>

definition example_image :: ndarray where
  "example_image = \<lparr>shape0 = 2, shape1 = 3, data = [2, 2, 2, 2, 1, 1]\<rparr>"


section \<open>Array access\<close>

lemma row_index_less: "row_index n i = Some k \<Longrightarrow> k < n"
  by (auto simp: row_index_def split: if_splits)

lemma row_index_of_nat: "row_index n (int k) = (if k < n then Some k else None)"
  by (simp add: row_index_def)

lemma row_index_int: "row_index n (int r) = Some k \<Longrightarrow> k = r"
  by (auto simp: row_index_def split: if_splits)

lemma row_index_nonneg: "0 \<le> x \<Longrightarrow> row_index n x = Some k \<Longrightarrow> x = int k"
  by (auto simp: row_index_def split: if_splits)

lemma getitem_row: "row_index (length xs) i = Some k \<Longrightarrow> getitem xs i = Inr (xs ! k)"
  by (simp add: getitem_def)

lemma setitem_row: "row_index (length xs) i = Some k \<Longrightarrow> setitem xs i v = Inr (xs[k := v])"
  by (simp add: setitem_def)

lemma getitem_InrD:
  "getitem xs i = Inr v \<Longrightarrow>
   \<exists>k. row_index (length xs) i = Some k \<and> k < length xs \<and> v = xs ! k"
  by (auto simp: getitem_def dest: row_index_less split: option.splits)

lemma setitem_InrD:
  "setitem xs i v = Inr ys \<Longrightarrow>
   \<exists>k. row_index (length xs) i = Some k \<and> k < length xs \<and> ys = xs[k := v]"
  by (auto simp: setitem_def dest: row_index_less split: option.splits)

lemma getitem_of_nat:
  "getitem xs (int k) = (if k < length xs then Inr (xs ! k) else Inl IndexError)"
  by (simp add: getitem_def row_index_of_nat)

lemma setitem_of_nat:
  "setitem xs (int k) v = (if k < length xs then Inr (xs[k := v]) else Inl IndexError)"
  by (simp add: setitem_def row_index_of_nat)

section \<open>Neighbor enumeration\<close>

text \<open>
  C3. For an image with at least two rows and two columns, \<open>get_4_neighbors\<close> is to
  return exactly the existing orthogonal neighbors, so two of them for a corner pixel.
  The code compares \<open>(pi - 1) % width\<close> and \<open>(pi + 1) % width\<close> with \<open>pi % width\<close>,
  which are never equal once \<open>width \<ge> 2\<close>: the left and right neighbors are never
  returned. At the corner pixel 0 of a 2 x 2 image the result is the pixel below alone.
\<close>

theorem get_4_neighbors_corner_2x2:
  "get_4_neighbors 2 2 4 0 (npmod 0 2) = [2]"
  by (simp add: get_4_neighbors_def npmod_def)

text \<open>
  C4. Both enumerators are to return lists without duplicates whose entries are valid flat
  indices. With \<open>width = 1\<close> the two remainder tests always succeed: for the only pixel
  of a 1 x 1 image the result holds \<open>-1\<close> and \<open>1\<close>, and for the middle pixel of three
  the two neighbors twice.
\<close>

theorem get_neighbors_width_1:
  "get_4_neighbors 1 1 1 0 (npmod 0 1) = [- 1, 1]
   \<and> get_8_neighbors 1 1 1 0 (npmod 0 1) = [- 1, 1]
   \<and> get_4_neighbors 1 3 3 1 (npmod 1 1) = [0, 2, 0, 2]
   \<and> get_8_neighbors 1 3 3 1 (npmod 1 1) = [0, 2, 0, 2]"
  by (simp add: get_8_neighbors_def get_4_neighbors_def npmod_def)

text \<open>
  From \<open>width = 2\<close> on, the lists have no duplicates and hold valid flat indices only
  (and no left or right neighbor).
\<close>

lemma npmod_neighbor:
  assumes "2 \<le> w"
  shows "npmod (p - 1) w \<noteq> npmod p w" and "npmod (p + 1) w \<noteq> npmod p w"
proof -
  have w0: "w \<noteq> 0" using assms by simp
  have "\<not> w dvd 1" using assms by (simp add: zdvd1_eq)
  then have a: "\<not> w dvd (p - (p - 1))" and b: "\<not> w dvd (p + 1 - p)" by simp_all
  from a have "p mod w \<noteq> (p - 1) mod w" unfolding mod_eq_dvd_iff .
  then show "npmod (p - 1) w \<noteq> npmod p w" using w0 by (auto simp: npmod_def)
  from b have "(p + 1) mod w \<noteq> p mod w" unfolding mod_eq_dvd_iff .
  then show "npmod (p + 1) w \<noteq> npmod p w" using w0 by (simp add: npmod_def)
qed

lemma get_4_neighbors_wide:
  assumes "2 \<le> w"
  shows "get_4_neighbors w h rs p (npmod p w)
         = (if p - w \<ge> 0 then [p - w] else []) @ (if p + w < rs then [p + w] else [])"
  using npmod_neighbor[OF assms, of p] by (simp add: get_4_neighbors_def Let_def)

lemma neighbors_valid:
  assumes w: "2 \<le> w" and p: "0 \<le> p" "p < rs"
  shows "distinct (get_4_neighbors w h rs p (npmod p w))"
    and "\<forall>x\<in>set (get_4_neighbors w h rs p (npmod p w)). 0 \<le> x \<and> x < rs"
    and "distinct (get_8_neighbors w h rs p (npmod p w))"
    and "\<forall>x\<in>set (get_8_neighbors w h rs p (npmod p w)). 0 \<le> x \<and> x < rs"
  using w p
  by (auto simp: get_8_neighbors_def get_4_neighbors_wide Let_def)

lemma last_pixel_neighbor:
  "int n \<in> set (get_4_neighbors 1 h rs (int n - 1) (npmod (int n - 1) 1))"
  "int n \<in> set (get_8_neighbors 1 h rs (int n - 1) (npmod (int n - 1) 1))"
  by (simp_all add: get_8_neighbors_def get_4_neighbors_def npmod_def Let_def)

section \<open>Root lookup\<close>

lemma length_compressed: "length (compressed parents path r) = length parents"
  by (simp add: compressed_def)

lemma chain_root_fixed:
  "chain parents index path r \<Longrightarrow> r < length parents \<and> parents ! r = r"
proof (induction rule: chain.induct)
  case (chain_root parents index r)
  from getitem_InrD[OF chain_root(1)] obtain k
    where k: "row_index (length parents) index = Some k" "k < length parents"
      "r = parents ! k"
    by auto
  have "row_index (length parents) (int r) = Some k"
    unfolding chain_root(2) by (rule k(1))
  then have kr: "k = r" by (rule row_index_int)
  have "parents ! r = r" using k(3) unfolding kr by (rule sym)
  moreover have "r < length parents" using k(2) unfolding kr .
  ultimately show ?case by (intro conjI)
next
  case (chain_step parents index k path r)
  then show ?case by simp
qed

lemma find_chain:
  "chain parents index path r \<Longrightarrow> length path < depth \<Longrightarrow>
   find_pixel_parent depth parents index = (compressed parents path r, Inr r)"
proof (induction arbitrary: depth rule: chain.induct)
  case (chain_root parents index r)
  from chain_root.prems obtain d where d: "depth = Suc d" by (cases depth) auto
  have c: "compressed parents [] r = parents"
    by (simp add: compressed_def map_nth)
  have "find_pixel_parent (Suc d) parents index = (parents, Inr r)"
    using chain_root.hyps by simp
  then show ?case using c d by simp
next
  case (chain_step parents index k path r)
  from chain_step.prems obtain d where d: "depth = Suc d" "length path < d"
    by (cases depth) auto
  let ?ps = "compressed parents path r"
  have rec: "find_pixel_parent d parents (int (parents ! k)) = (?ps, Inr r)"
    using chain_step.IH d by simp
  have k: "k < length parents" using chain_step.hyps(1) by (rule row_index_less)
  have ri: "row_index (length ?ps) index = Some k"
    using chain_step.hyps(1) by (simp add: length_compressed)
  have upd: "setitem ?ps index r = Inr (?ps[k := r])" using ri by (rule setitem_row)
  have ri': "row_index (length (?ps[k := r])) index = Some k" using ri by simp
  have get: "getitem (?ps[k := r]) index = Inr r"
    using getitem_row[OF ri'] k by (simp add: length_compressed)
  have eq: "?ps[k := r] = compressed parents (k # path) r"
    by (rule nth_equalityI) (use k in \<open>auto simp: compressed_def nth_list_update\<close>)
  have "find_pixel_parent (Suc d) parents index = (?ps[k := r], Inr r)"
    using chain_step.hyps(2) by (simp add: getitem_row[OF chain_step.hyps(1)] rec upd get)
  then show ?case
    using eq d(1) by simp
qed

text \<open>
  C5, amended. When the parent pointers from \<open>index\<close> lead to a self-referencing entry
  \<open>r\<close> along a path shorter than the number of nested calls the run-time allows,
  \<open>find_pixel_parent\<close> returns \<open>r\<close>, which is a row of the array that points at
  itself; afterwards every row of the path points at \<open>r\<close> and every other row is as
  before.
\<close>

theorem find_pixel_parent_compresses:
  assumes "chain parents index path r" and "length path < depth"
  shows "find_pixel_parent depth parents index = (compressed parents path r, Inr r)
         \<and> r < length parents \<and> parents ! r = r
         \<and> length (compressed parents path r) = length parents
         \<and> (\<forall>k<length parents.
               compressed parents path r ! k = (if k \<in> set path then r else parents ! k))"
  using find_chain[OF assms] chain_root_fixed[OF assms(1)]
  by (simp add: compressed_def)

theorem find_pixel_parent_compresses_witness:
  "chain [1, 2, 2, 0] 3 [3, 0, 1] 2 \<and> length [3, 0, 1 :: nat] < 4
   \<and> find_pixel_parent 4 [1, 2, 2, 0] 3 = ([2, 2, 2, 2], Inr 2)"
proof -
  have h: "chain [1, 2, 2, 0] 3 [3, 0, 1] 2"
    apply (rule chain_step, simp add: row_index_def, simp)
    apply (rule chain_step, simp add: row_index_def, simp)
    apply (rule chain_step, simp add: row_index_def, simp)
    apply (rule chain_root, simp add: getitem_def row_index_def, simp)
    done
  have l: "length [3, 0, 1 :: nat] < 4" by simp
  have c: "compressed [1, 2, 2, 0] [3, 0, 1] 2 = [2, 2, 2, 2]"
    by (simp add: compressed_def upt_rec)
  show ?thesis
    using h l find_pixel_parent_compresses[OF h l] unfolding c by simp
qed

text \<open>
  When the path is as long as the budget or longer, the call raises and no row is
  rewritten.
\<close>

lemma find_chain_short:
  "chain parents index path r \<Longrightarrow> depth \<le> length path \<Longrightarrow>
   find_pixel_parent depth parents index = (parents, Inl NestingError)"
proof (induction arbitrary: depth rule: chain.induct)
  case (chain_root parents index r)
  then show ?case by simp
next
  case (chain_step parents index k path r)
  show ?case
  proof (cases depth)
    case 0
    then show ?thesis by simp
  next
    case (Suc d)
    with chain_step.prems have "d \<le> length path" by simp
    from chain_step.IH[OF this]
    have rec: "find_pixel_parent d parents (int (parents ! k)) = (parents, Inl NestingError)" .
    show ?thesis
      unfolding Suc using chain_step.hyps(2)
      by (simp add: getitem_row[OF chain_step.hyps(1)] rec)
  qed
qed

lemma length_ascending_chain: "length (ascending_chain n) = Suc n"
  by (simp add: ascending_chain_def)

lemma nth_ascending_chain:
  "i \<le> n \<Longrightarrow> ascending_chain n ! i = (if i < n then Suc i else n)"
  by (auto simp: ascending_chain_def nth_append)

lemma chain_ascending:
  "i \<le> n \<Longrightarrow> chain (ascending_chain n) (int i) [i..<n] n"
proof (induction "n - i" arbitrary: i)
  case 0
  then have i: "i = n" by simp
  have "getitem (ascending_chain n) (int n) = Inr n"
    by (simp add: getitem_of_nat length_ascending_chain nth_ascending_chain)
  then have "chain (ascending_chain n) (int n) [] n" by (rule chain_root) simp
  with i show ?case by simp
next
  case (Suc d)
  then have i: "i < n" by simp
  have ri: "row_index (length (ascending_chain n)) (int i) = Some i"
    using i by (simp add: row_index_of_nat length_ascending_chain)
  have nx: "ascending_chain n ! i = Suc i" using i by (simp add: nth_ascending_chain)
  have ne: "int (ascending_chain n ! i) \<noteq> int i" unfolding nx by simp
  have "d = n - Suc i" using Suc.hyps(2) by simp
  from Suc.hyps(1)[OF this] i
  have "chain (ascending_chain n) (int (Suc i)) [Suc i..<n] n" by simp
  then have rest: "chain (ascending_chain n) (int (ascending_chain n ! i)) [Suc i..<n] n"
    unfolding nx .
  have "chain (ascending_chain n) (int i) (i # [Suc i..<n]) n"
    using ri ne rest by (rule chain_step)
  then show ?case using i by (simp add: upt_conv_Cons)
qed

text \<open>
  C5, as the claim states it, fails: in the array of 65 rows where each row points at the
  next and the last at itself, the pointers from row 0 reach the self-referencing row 64,
  and with 64 nested calls allowed \<open>find_pixel_parent\<close> raises and leaves the array as
  it was.
\<close>

theorem find_pixel_parent_nesting_counterexample:
  "chain (ascending_chain 64) 0 [0..<64] 64
   \<and> find_pixel_parent 64 (ascending_chain 64) 0 = (ascending_chain 64, Inl NestingError)"
proof -
  have c: "chain (ascending_chain 64) (int 0) [0..<64] 64"
    by (rule chain_ascending) simp
  then have c': "chain (ascending_chain 64) 0 [0..<64] 64" by simp
  have "(64::nat) \<le> length [0..<64]" by simp
  from find_chain_short[OF c' this] c' show ?thesis by simp
qed

section \<open>Canonization\<close>

lemma canonize_pixel_Inr_iff:
  "canonize_pixel img parents pi = Inr parents' \<longleftrightarrow>
   (\<exists>k. row_index (length parents) pi = Some k \<and>
        parents ! k < length img \<and> parents ! k < length parents \<and>
        parents ! (parents ! k) < length img \<and>
        parents' = (if img ! (parents ! k) = img ! (parents ! (parents ! k))
                    then parents[k := parents ! (parents ! k)] else parents))"
  by (cases "row_index (length parents) pi")
     (auto simp: canonize_pixel_def getitem_def setitem_def row_index_of_nat)

lemma canonize_pixel_keeps:
  assumes "canonize_pixel img parents pi = Inr parents'"
  shows "length parents' = length parents"
    and "p < length parents \<Longrightarrow>
         getitem img (int (parents' ! p)) = getitem img (int (parents ! p))"
proof -
  from assms obtain k where k: "row_index (length parents) pi = Some k"
     "parents ! k < length img" "parents ! (parents ! k) < length img"
     "parents' = (if img ! (parents ! k) = img ! (parents ! (parents ! k))
                    then parents[k := parents ! (parents ! k)] else parents)"
    unfolding canonize_pixel_Inr_iff by blast
  show "length parents' = length parents" using k(4) by simp
  show "getitem img (int (parents' ! p)) = getitem img (int (parents ! p))"
    if "p < length parents"
    using that k(2,3) row_index_less[OF k(1)] unfolding k(4)
    by (cases "p = k") (simp_all add: getitem_of_nat)
qed

lemma canonize_keeps:
  "canonize img parents nodes_order = (parents', res) \<Longrightarrow>
   length parents' = length parents \<and>
   (\<forall>p<length parents.
      getitem img (int (parents' ! p)) = getitem img (int (parents ! p)))"
proof (induction nodes_order arbitrary: parents)
  case Nil
  then show ?case by simp
next
  case (Cons pi nodes_order)
  show ?case
  proof (cases "canonize_pixel img parents pi")
    case (Inl e)
    with Cons.prems show ?thesis by simp
  next
    case (Inr ps1)
    with Cons.prems have "canonize img ps1 nodes_order = (parents', res)" by simp
    from Cons.IH[OF this] canonize_pixel_keeps[OF Inr] show ?thesis by simp
  qed
qed

text \<open>
  C9. \<open>canonize\<close> keeps the intensity of every pixel's parent: whatever the image, the
  parent array and the traversal order, and whether the loop ends or raises, reading the
  image at \<open>parents[p]\<close> gives after the call what it gave before (the same intensity, or
  the same IndexError where the entry is no index of the image).
\<close>

theorem canonize_preserves_parent_intensity:
  assumes "canonize img parents nodes_order = (parents', res)"
    and "p < length parents"
  shows "getitem img (int (parents' ! p)) = getitem img (int (parents ! p))"
  using canonize_keeps[OF assms(1)] assms(2) by simp

theorem canonize_preserves_parent_intensity_witness:
  "canonize [3, 3, 5, 5] [0, 0, 1, 2] [0, 1, 2, 3] = ([0, 0, 0, 2], None)
   \<and> (2::nat) < length [0, 0, 1, 2 :: nat]
   \<and> getitem [3, 3, 5, 5 :: int] (int ([0, 0, 0, 2] ! 2))
       = getitem [3, 3, 5, 5] (int ([0, 0, 1, 2] ! 2))"
proof -
  have h: "canonize [3, 3, 5, 5] [0, 0, 1, 2] [0, 1, 2, 3] = ([0, 0, 0, 2], None)"
    by (simp add: canonize_pixel_def getitem_def setitem_def row_index_def)
  have l: "(2::nat) < length [0, 0, 1, 2 :: nat]" by simp
  show ?thesis
    using h l canonize_preserves_parent_intensity[OF h l] by simp
qed

section \<open>The end-to-end scenario\<close>

lemma argsort_scenario: "argsort [5, 3, 3, 5] = [1, 2, 0, 3]"
  by (simp add: argsort_def upt_rec)

text \<open>
  C2. The image with intensities 5, 3, 3, 5 in one row of four columns, 4-connectivity:
  the order \<open>[1, 2, 0, 3]\<close> and the parent array \<open>[1, 1, 1, 1]\<close> are expected. A numpy
  array of one row and four columns has shape (1, 4), so the code's \<open>width\<close> is 1: the
  first pixel visited, 3, gets the neighbor 4, and reading \<open>parents[4]\<close> raises
  IndexError, whatever the recursion limit. Laid out with shape (4, 1) instead, no pixel
  has a neighbor, and every pixel stays its own parent.
\<close>

theorem maxtree_berger_scenario:
  "snd (maxtree_berger limit \<lparr>shape0 = 1, shape1 = 4, data = [5, 3, 3, 5]\<rparr> False)
     = Inl IndexError
   \<and> snd (maxtree_berger limit \<lparr>shape0 = 4, shape1 = 1, data = [5, 3, 3, 5]\<rparr> False)
     = Inr ([0, 1, 2, 3], [1, 2, 0, 3])"
  by (simp add: maxtree_berger_def argsort_scenario maxtree_with_def construct_def
      initial_frame_def visit_pixel_def get_4_neighbors_def npmod_def setitem_def
      getitem_def row_index_def canonize_pixel_def Let_def)


section \<open>The order array\<close>

lemma perm_ord_nth_less: "perm_ord ord \<Longrightarrow> i < length ord \<Longrightarrow> ord ! i < length ord"
  unfolding perm_ord_def using nth_mem[of i ord] by auto

lemma perm_ord_nth_eq:
  "perm_ord ord \<Longrightarrow> i < length ord \<Longrightarrow> j < length ord \<Longrightarrow> ord ! i = ord ! j \<longleftrightarrow> i = j"
  unfolding perm_ord_def by (simp add: nth_eq_iff_index_eq)

lemma perm_ord_row: "perm_ord ord \<Longrightarrow> k < length ord \<Longrightarrow> \<exists>i<length ord. ord ! i = k"
  unfolding perm_ord_def using in_set_conv_nth[of k ord] by auto

lemma is_argsort_perm: "is_argsort xs ord \<Longrightarrow> perm_ord ord \<and> length ord = length xs"
proof -
  assume a: "is_argsort xs ord"
  then have d: "distinct ord" and s: "set ord = {0..<length xs}" by (simp_all add: is_argsort_def)
  have "length ord = card (set ord)" using d by (simp add: distinct_card)
  then have "length ord = length xs" using s by simp
  with d s show ?thesis by (simp add: perm_ord_def)
qed

lemma argsort_is_argsort: "is_argsort xs (argsort xs)"
  by (simp add: is_argsort_def argsort_def sorted_sort_key)

section \<open>The invariant of the construction pass\<close>

lemma ranked_length: "ranked ord t xs \<Longrightarrow> length xs = length ord"
  by (simp add: ranked_def)

lemma rankedD:
  "ranked ord t xs \<Longrightarrow> t \<le> i \<Longrightarrow> i < length ord \<Longrightarrow> \<exists>j. t \<le> j \<and> j \<le> i \<and> xs ! (ord ! i) = ord ! j"
  by (simp add: ranked_def)

lemma ranked_update:
  assumes p: "perm_ord ord" and r: "ranked ord t xs"
    and j: "t \<le> j" "j \<le> i" and i: "i < length ord"
  shows "ranked ord t (xs[ord ! i := ord ! j])"
  unfolding ranked_def
proof (intro conjI allI impI)
  show "length (xs[ord ! i := ord ! j]) = length ord" using r by (simp add: ranked_def)
next
  fix i' assume i': "t \<le> i' \<and> i' < length ord"
  show "\<exists>j'. t \<le> j' \<and> j' \<le> i' \<and> xs[ord ! i := ord ! j] ! (ord ! i') = ord ! j'"
  proof (cases "i' = i")
    case True
    have "ord ! i < length xs" using perm_ord_nth_less[OF p i] r by (simp add: ranked_def)
    then have "xs[ord ! i := ord ! j] ! (ord ! i') = ord ! j" using True by simp
    with j True show ?thesis by blast
  next
    case False
    then have "ord ! i \<noteq> ord ! i'" using perm_ord_nth_eq[OF p i, of i'] i' by auto
    then have "xs[ord ! i := ord ! j] ! (ord ! i') = xs ! (ord ! i')" by simp
    then show ?thesis using rankedD[OF r, of i'] i' by simp
  qed
qed

lemma ranked_visit:
  assumes p: "perm_ord ord" and r: "ranked ord (Suc t) xs" and t: "t < length ord"
  shows "ranked ord t (xs[ord ! t := ord ! t])"
  unfolding ranked_def
proof (intro conjI allI impI)
  show "length (xs[ord ! t := ord ! t]) = length ord" using r by (simp add: ranked_def)
next
  fix i assume i: "t \<le> i \<and> i < length ord"
  show "\<exists>j. t \<le> j \<and> j \<le> i \<and> xs[ord ! t := ord ! t] ! (ord ! i) = ord ! j"
  proof (cases "i = t")
    case True
    have "ord ! t < length xs" using perm_ord_nth_less[OF p t] r by (simp add: ranked_def)
    then have "xs[ord ! t := ord ! t] ! (ord ! i) = ord ! t" using True by simp
    with True show ?thesis by blast
  next
    case False
    with i have si: "Suc t \<le> i" by simp
    have "ord ! t \<noteq> ord ! i" using perm_ord_nth_eq[OF p t, of i] i False by auto
    then have e: "xs[ord ! t := ord ! t] ! (ord ! i) = xs ! (ord ! i)" by simp
    from rankedD[OF r si] i obtain j where "Suc t \<le> j" "j \<le> i" "xs ! (ord ! i) = ord ! j" by blast
    then show ?thesis using e by (intro exI[of _ j]) simp
  qed
qed

lemma unvisited_update:
  assumes p: "perm_ord ord" and u: "unvisited ord t un xs" and i: "t \<le> i" "i < length ord"
  shows "unvisited ord t un (xs[ord ! i := v])"
  unfolding unvisited_def
proof (intro allI impI)
  fix i' assume i': "i' < t"
  then have "ord ! i \<noteq> ord ! i'" using perm_ord_nth_eq[OF p i(2), of i'] i by auto
  then show "xs[ord ! i := v] ! (ord ! i') = un" using u i' by (simp add: unvisited_def)
qed

lemma unvisited_Suc: "unvisited ord (Suc t) un xs \<Longrightarrow> unvisited ord t un xs"
  by (simp add: unvisited_def)

lemma ranked_entry_less:
  assumes p: "perm_ord ord" and r: "ranked ord 0 ps" and k: "k < length ord"
  shows "ps ! k < length ord"
proof -
  from perm_ord_row[OF p k] obtain i where i: "i < length ord" "ord ! i = k" by blast
  from rankedD[OF r _ i(1)] obtain j where j: "j \<le> i" "ps ! (ord ! i) = ord ! j" by auto
  have "j < length ord" using j(1) i(1) by simp
  from perm_ord_nth_less[OF p this] j(2) i(2) show ?thesis by simp
qed

lemma ranked_first_root:
  assumes r: "ranked ord 0 ps" and n: "0 < length ord"
  shows "ps ! (ord ! 0) = ord ! 0"
  using rankedD[OF r _ n] by auto

lemma ranked_intensity:
  assumes a: "is_argsort xs ord" and r: "ranked ord 0 ps" and k: "k < length xs"
  shows "ps ! k < length xs \<and> xs ! (ps ! k) \<le> xs ! k"
proof -
  from is_argsort_perm[OF a] have p: "perm_ord ord" and l: "length ord = length xs" by simp_all
  have srt: "sorted (map (\<lambda>i. xs ! i) ord)" using a by (simp add: is_argsort_def)
  from perm_ord_row[OF p] k l obtain i where i: "i < length ord" "ord ! i = k" by auto
  from rankedD[OF r _ i(1)] obtain j where j: "j \<le> i" "ps ! (ord ! i) = ord ! j" by auto
  have jn: "j < length ord" using j(1) i(1) by simp
  have "map (\<lambda>i. xs ! i) ord ! j \<le> map (\<lambda>i. xs ! i) ord ! i"
    using srt j(1) i(1) by (simp add: sorted_iff_nth_mono del: nth_map)
  then have "xs ! (ord ! j) \<le> xs ! (ord ! i)" using jn i(1) by simp
  with perm_ord_nth_less[OF p jn] j(2) i(2) l show ?thesis by simp
qed

text \<open>
  \<open>find_pixel_parent\<close>, started at the row of a visited pixel, keeps the ranking of
  \<open>zparents\<close> and returns a visited pixel that is no later in the order.
\<close>

lemma find_ranked:
  assumes p: "perm_ord ord"
  shows "ranked ord t zs \<Longrightarrow> row_index (length ord) idx = Some (ord ! i) \<Longrightarrow> t \<le> i \<Longrightarrow> i < length ord \<Longrightarrow>
         find_pixel_parent d zs idx = (zs', res) \<Longrightarrow>
         ranked ord t zs' \<and> (\<forall>r. res = Inr r \<longrightarrow> (\<exists>j. t \<le> j \<and> j \<le> i \<and> r = ord ! j))"
proof (induction d arbitrary: zs idx i zs' res)
  case 0
  then show ?case by auto
next
  case (Suc d)
  have len: "length zs = length ord" using Suc.prems(1) by (rule ranked_length)
  have ri: "row_index (length zs) idx = Some (ord ! i)" using Suc.prems(2) len by simp
  from rankedD[OF Suc.prems(1,3,4)] obtain j where j: "t \<le> j" "j \<le> i" "zs ! (ord ! i) = ord ! j" by blast
  have jn: "j < length ord" using j(2) Suc.prems(4) by simp
  have get: "getitem zs idx = Inr (ord ! j)" using getitem_row[OF ri] j(3) by simp
  show ?case
  proof (cases "int (ord ! j) = idx")
    case True
    then have "find_pixel_parent (Suc d) zs idx = (zs, Inr (ord ! j))" using get by simp
    with Suc.prems(5) have "zs' = zs" "res = Inr (ord ! j)" by simp_all
    with Suc.prems(1) j show ?thesis by blast
  next
    case False
    obtain zs1 res1 where rec: "find_pixel_parent d zs (int (ord ! j)) = (zs1, res1)" by force
    have rj: "row_index (length ord) (int (ord ! j)) = Some (ord ! j)"
      using perm_ord_nth_less[OF p jn] by (simp add: row_index_of_nat)
    from Suc.IH[OF Suc.prems(1) rj j(1) jn rec]
    have r1: "ranked ord t zs1" and res1: "\<And>r. res1 = Inr r \<Longrightarrow> \<exists>j'. t \<le> j' \<and> j' \<le> j \<and> r = ord ! j'" by blast+
    show ?thesis
    proof (cases res1)
      case (Inl e)
      then have "find_pixel_parent (Suc d) zs idx = (zs1, Inl e)" using get False rec by simp
      with Suc.prems(5) r1 show ?thesis by auto
    next
      case (Inr r)
      from res1[OF Inr] obtain j' where j': "t \<le> j'" "j' \<le> j" "r = ord ! j'" by blast
      have len1: "length zs1 = length ord" using r1 by (rule ranked_length)
      have ri1: "row_index (length zs1) idx = Some (ord ! i)" using Suc.prems(2) len1 by simp
      have upd: "setitem zs1 idx r = Inr (zs1[ord ! i := r])" using ri1 by (rule setitem_row)
      have ri2: "row_index (length (zs1[ord ! i := r])) idx = Some (ord ! i)" using ri1 by simp
      have "ord ! i < length zs1" using perm_ord_nth_less[OF p Suc.prems(4)] len1 by simp
      then have get2: "getitem (zs1[ord ! i := r]) idx = Inr r" using getitem_row[OF ri2] by simp
      have "find_pixel_parent (Suc d) zs idx = (zs1[ord ! i := r], Inr r)"
        using get False rec Inr upd get2 by simp
      with Suc.prems(5) have e: "zs' = zs1[ord ! i := ord ! j']" "res = Inr (ord ! j')" using j'(3) by simp_all
      have "j' \<le> i" using j'(2) j(2) by simp
      from ranked_update[OF p r1 j'(1) this Suc.prems(4)] e j'(1) \<open>j' \<le> i\<close> show ?thesis by blast
    qed
  qed
qed

lemma filter_defined_visited:
  assumes p: "perm_ord ord" and r: "ranked ord t ps" and u: "unvisited ord t un ps"
  shows "filter_defined ps un ns = Inr kept \<Longrightarrow> visited_rows ord t kept"
proof (induction ns arbitrary: kept)
  case Nil
  then show ?case by (simp add: visited_rows_def)
next
  case (Cons x ns)
  from Cons.prems obtain v kept' where
    g: "getitem ps x = Inr v" and f: "filter_defined ps un ns = Inr kept'"
    and k: "kept = (if v \<noteq> un then x # kept' else kept')"
    by (auto split: sum.splits)
  have IH: "visited_rows ord t kept'" using Cons.IH[OF f] .
  show ?case
  proof (cases "v = un")
    case True
    with k IH show ?thesis by simp
  next
    case False
    from getitem_InrD[OF g] obtain row where row: "row_index (length ps) x = Some row"
      "row < length ps" "v = ps ! row" by blast
    have len: "length ps = length ord" using r by (rule ranked_length)
    from perm_ord_row[OF p] row(2) len obtain i where i: "i < length ord" "ord ! i = row" by auto
    have "t \<le> i"
    proof (rule ccontr)
      assume "\<not> t \<le> i"
      then have "ps ! (ord ! i) = un" using u by (simp add: unvisited_def)
      with False row(3) i(2) show False by simp
    qed
    then have "\<exists>i. t \<le> i \<and> i < length ord \<and> row_index (length ord) x = Some (ord ! i)"
      using i row(1) len by auto
    with k False IH show ?thesis by (simp add: visited_rows_def)
  qed
qed

lemma filter_defined_ok:
  "\<forall>x\<in>set ns. 0 \<le> x \<and> x < int (length ps) \<Longrightarrow> \<exists>kept. filter_defined ps un ns = Inr kept"
proof (induction ns)
  case Nil
  then show ?case by simp
next
  case (Cons x ns)
  then obtain kept where k: "filter_defined ps un ns = Inr kept" by auto
  from Cons.prems have "row_index (length ps) x = Some (nat x)" by (simp add: row_index_def)
  from getitem_row[OF this] k show ?case by simp
qed

lemma filter_defined_subset:
  "filter_defined ps un ns = Inr kept \<Longrightarrow> set kept \<subseteq> set ns"
proof (induction ns arbitrary: kept)
  case Nil
  then show ?case by simp
next
  case (Cons x ns)
  from Cons.prems obtain v kept' where f: "filter_defined ps un ns = Inr kept'"
    and k: "kept = (if v \<noteq> un then x # kept' else kept')"
    by (auto split: sum.splits)
  from Cons.IH[OF f] k show ?case by auto
qed

lemma filter_defined_raises:
  "x \<in> set ns \<Longrightarrow> row_index (length ps) x = None \<Longrightarrow> filter_defined ps un ns = Inl IndexError"
proof (induction ns)
  case Nil
  then show ?case by simp
next
  case (Cons y ns)
  show ?case
  proof (cases "getitem ps y")
    case (Inl e)
    then have "e = IndexError" by (auto simp: getitem_def split: option.splits)
    with Inl show ?thesis by simp
  next
    case (Inr v)
    then have "row_index (length ps) y \<noteq> None" by (auto simp: getitem_def split: option.splits)
    with Cons.prems have "x \<in> set ns" by auto
    from Cons.IH[OF this Cons.prems(2)] Inr show ?thesis by simp
  qed
qed

text \<open>
  With a recursion budget beyond the number of visited pixels the lookup returns: every
  step of the path moves to a pixel strictly earlier in the order.
\<close>

lemma find_returns:
  assumes p: "perm_ord ord"
  shows "ranked ord t zs \<Longrightarrow> t \<le> i \<Longrightarrow> i < length ord \<Longrightarrow> i - t < d \<Longrightarrow>
         \<exists>zs' r. find_pixel_parent d zs (int (ord ! i)) = (zs', Inr r)"
proof (induction d arbitrary: zs i)
  case 0
  then show ?case by simp
next
  case (Suc d)
  have len: "length zs = length ord" using Suc.prems(1) by (rule ranked_length)
  have oi: "ord ! i < length zs" using perm_ord_nth_less[OF p Suc.prems(3)] len by simp
  from rankedD[OF Suc.prems(1,2,3)] obtain j where
    j: "t \<le> j" "j \<le> i" "zs ! (ord ! i) = ord ! j" by blast
  have jn: "j < length ord" using j(2) Suc.prems(3) by simp
  have get: "getitem zs (int (ord ! i)) = Inr (ord ! j)" using oi j(3) by (simp add: getitem_of_nat)
  show ?case
  proof (cases "ord ! j = ord ! i")
    case True
    then show ?thesis using get by simp
  next
    case False
    then have "j \<noteq> i" by auto
    with j(2) have "j < i" by simp
    then have "j - t < d" using Suc.prems(4) j(1) by arith
    from Suc.IH[OF Suc.prems(1) j(1) jn this] obtain zs1 r where
      rec: "find_pixel_parent d zs (int (ord ! j)) = (zs1, Inr r)" by blast
    have rj: "row_index (length ord) (int (ord ! j)) = Some (ord ! j)"
      using perm_ord_nth_less[OF p jn] by (simp add: row_index_of_nat)
    from find_ranked[OF p Suc.prems(1) rj j(1) jn rec] have "ranked ord t zs1" by simp
    then have "length zs1 = length zs" using len by (simp add: ranked_length)
    then have "ord ! i < length zs1" using oi by simp
    then show ?thesis using get False rec by (simp add: setitem_of_nat getitem_of_nat)
  qed
qed

text \<open>
  The merge loop and the loop body keep the invariant, whatever their outcome; they end
  without an exception when the neighbor indices are not negative and the recursion budget
  is large enough.
\<close>

lemma merge_nodes_inv:
  assumes p: "perm_ord ord" and t: "t < length ord"
  shows "visited_rows ord t ns \<Longrightarrow> pass_inv ord t un st \<Longrightarrow>
         merge_nodes lim (ord ! t) ns st = (st', res) \<Longrightarrow>
         pass_inv ord t un st'
         \<and> ((\<forall>x\<in>set ns. 0 \<le> x) \<and> length ord - t < lim \<longrightarrow> res = None)"
proof (induction ns arbitrary: st)
  case Nil
  then show ?case by simp
next
  case (Cons x ns)
  from Cons.prems(1) obtain i where i: "t \<le> i" "i < length ord"
    "row_index (length ord) x = Some (ord ! i)" and vr: "visited_rows ord t ns"
    by (auto simp: visited_rows_def)
  have rp: "ranked ord t (parents_arr st)" and rz: "ranked ord t (zparents_arr st)"
    and un: "unvisited ord t un (parents_arr st)"
    using Cons.prems(2) by (simp_all add: pass_inv_def)
  obtain zp fres where f: "find_pixel_parent lim (zparents_arr st) x = (zp, fres)" by force
  from find_ranked[OF p rz i(3) i(1) i(2) f]
  have rzp: "ranked ord t zp" and fr: "\<And>r. fres = Inr r \<Longrightarrow> \<exists>j. t \<le> j \<and> j \<le> i \<and> r = ord ! j"
    by blast+
  have inv1: "pass_inv ord t un (st\<lparr>zparents_arr := zp\<rparr>)"
    using rp rzp un by (simp add: pass_inv_def)
  show ?case
  proof (cases fres)
    case (Inl e)
    have eq: "merge_nodes lim (ord ! t) (x # ns) st = (st\<lparr>zparents_arr := zp\<rparr>, Some e)"
      using f Inl by simp
    have nc: "\<not> ((\<forall>y\<in>set (x # ns). 0 \<le> y) \<and> length ord - t < lim)"
    proof
      assume c: "(\<forall>y\<in>set (x # ns). 0 \<le> y) \<and> length ord - t < lim"
      then have "0 \<le> x" by simp
      from row_index_nonneg[OF this i(3)] have xi: "x = int (ord ! i)" .
      have "i - t < lim" using c i(2) by arith
      from find_returns[OF p rz i(1) i(2) this] obtain zs' r where
        "find_pixel_parent lim (zparents_arr st) (int (ord ! i)) = (zs', Inr r)" by blast
      with f Inl xi show False by simp
    qed
    from eq Cons.prems(3) have "st' = st\<lparr>zparents_arr := zp\<rparr>" by simp
    with inv1 nc show ?thesis by blast
  next
    case (Inr r)
    from fr[OF Inr] obtain j where j: "t \<le> j" "j \<le> i" "r = ord ! j" by blast
    have jn: "j < length ord" using j(2) i(2) by simp
    show ?thesis
    proof (cases "r = ord ! t")
      case True
      then have "merge_nodes lim (ord ! t) (x # ns) st
                 = merge_nodes lim (ord ! t) ns (st\<lparr>zparents_arr := zp\<rparr>)"
        using f Inr by simp
      with Cons.prems(3) Cons.IH[OF vr inv1] show ?thesis by simp
    next
      case False
      have lz: "length zp = length ord" using rzp by (rule ranked_length)
      have "r < length zp" using perm_ord_nth_less[OF p jn] j(3) lz by simp
      then have s1: "setitem zp (int r) (ord ! t) = Inr (zp[ord ! j := ord ! t])"
        using j(3) by (simp add: setitem_of_nat)
      let ?zp' = "zp[ord ! j := ord ! t]"
      have rzp': "ranked ord t ?zp'" using ranked_update[OF p rzp le_refl j(1) jn] by simp
      have lz': "length ?zp' = length ord" using rzp' by (rule ranked_length)
      from rankedD[OF rzp' i(1) i(2)] obtain j2 where
        j2: "t \<le> j2" "j2 \<le> i" "?zp' ! (ord ! i) = ord ! j2" by blast
      have j2n: "j2 < length ord" using j2(2) i(2) by simp
      have g: "getitem ?zp' x = Inr (ord ! j2)"
        using getitem_row[of ?zp' x "ord ! i"] i(3) lz' j2(3) by simp
      have lp: "length (parents_arr st) = length ord" using rp by (rule ranked_length)
      have "ord ! j2 < length (parents_arr st)" using perm_ord_nth_less[OF p j2n] lp by simp
      then have s2: "setitem (parents_arr st) (int (ord ! j2)) (ord ! t)
                     = Inr ((parents_arr st)[ord ! j2 := ord ! t])"
        by (simp add: setitem_of_nat)
      let ?ps' = "(parents_arr st)[ord ! j2 := ord ! t]"
      have rps': "ranked ord t ?ps'" using ranked_update[OF p rp le_refl j2(1) j2n] by simp
      have un': "unvisited ord t un ?ps'" using unvisited_update[OF p un j2(1) j2n] .
      have inv2: "pass_inv ord t un (st\<lparr>zparents_arr := ?zp', parents_arr := ?ps'\<rparr>)"
        using rps' rzp' un' by (simp add: pass_inv_def)
      have "merge_nodes lim (ord ! t) (x # ns) st
            = merge_nodes lim (ord ! t) ns (st\<lparr>zparents_arr := ?zp', parents_arr := ?ps'\<rparr>)"
        using f Inr False s1 g s2 by simp
      with Cons.prems(3) Cons.IH[OF vr inv2] show ?thesis by simp
    qed
  qed
qed

lemma visit_pixel_inv:
  assumes p: "perm_ord ord" and t: "t < length ord"
    and inv: "pass_inv ord (Suc t) un st"
    and v: "visit_pixel lim c8 w h rs un (ord ! t) st = (st', res)"
  shows "pass_inv ord t un st'
         \<and> (2 \<le> w \<and> rs = int (length ord) \<and> length ord - t < lim \<longrightarrow> res = None)"
proof -
  have rp: "ranked ord (Suc t) (parents_arr st)" and rz: "ranked ord (Suc t) (zparents_arr st)"
    and un: "unvisited ord (Suc t) un (parents_arr st)"
    using inv by (simp_all add: pass_inv_def)
  have lt: "ord ! t < length ord" using perm_ord_nth_less[OF p t] .
  let ?ps = "(parents_arr st)[ord ! t := ord ! t]"
  let ?zp = "(zparents_arr st)[ord ! t := ord ! t]"
  let ?st1 = "st\<lparr>parents_arr := ?ps, zparents_arr := ?zp\<rparr>"
  have s1: "setitem (parents_arr st) (int (ord ! t)) (ord ! t) = Inr ?ps"
    using lt ranked_length[OF rp] by (simp add: setitem_of_nat)
  have s2: "setitem (zparents_arr st) (int (ord ! t)) (ord ! t) = Inr ?zp"
    using lt ranked_length[OF rz] by (simp add: setitem_of_nat)
  have rps: "ranked ord t ?ps" using ranked_visit[OF p rp t] .
  have rzp: "ranked ord t ?zp" using ranked_visit[OF p rz t] .
  have uns: "unvisited ord t un ?ps"
    using unvisited_update[OF p unvisited_Suc[OF un] le_refl t] by simp
  have inv1: "pass_inv ord t un ?st1" using rps rzp uns by (simp add: pass_inv_def)
  define ns where "ns = (if c8 then get_8_neighbors w h rs (int (ord ! t)) (npmod (int (ord ! t)) w)
                         else get_4_neighbors w h rs (int (ord ! t)) (npmod (int (ord ! t)) w))"
  have nsv: "\<forall>x\<in>set ns. 0 \<le> x \<and> x < rs" if c: "2 \<le> w" "int (ord ! t) < rs"
  proof (cases c8)
    case True
    then have "ns = get_8_neighbors w h rs (int (ord ! t)) (npmod (int (ord ! t)) w)"
      by (simp add: ns_def)
    then show ?thesis using neighbors_valid(4)[OF c(1) of_nat_0_le_iff c(2)] by simp
  next
    case False
    then have "ns = get_4_neighbors w h rs (int (ord ! t)) (npmod (int (ord ! t)) w)"
      by (simp add: ns_def)
    then show ?thesis using neighbors_valid(2)[OF c(1) of_nat_0_le_iff c(2)] by simp
  qed
  have vp: "visit_pixel lim c8 w h rs un (ord ! t) st =
        (case filter_defined ?ps un ns of
           Inl e \<Rightarrow> (?st1, Some e)
         | Inr kept \<Rightarrow> merge_nodes lim (ord ! t) kept ?st1)"
    unfolding visit_pixel_def ns_def using s1 s2 by (simp add: Let_def)
  show ?thesis
  proof (cases "filter_defined ?ps un ns")
    case (Inl e)
    have nc: "\<not> (2 \<le> w \<and> rs = int (length ord) \<and> length ord - t < lim)"
    proof
      assume c: "2 \<le> w \<and> rs = int (length ord) \<and> length ord - t < lim"
      then have "int (ord ! t) < rs" using lt by simp
      from nsv[OF _ this] c have "\<forall>x\<in>set ns. 0 \<le> x \<and> x < int (length ?ps)"
        using ranked_length[OF rps] by simp
      from filter_defined_ok[OF this] obtain kept where "filter_defined ?ps un ns = Inr kept"
        by blast
      with Inl show False by simp
    qed
    from vp v Inl have "st' = ?st1" by simp
    with inv1 nc show ?thesis by blast
  next
    case (Inr kept)
    have vr: "visited_rows ord t kept" using filter_defined_visited[OF p rps uns Inr] .
    from vp v Inr have m: "merge_nodes lim (ord ! t) kept ?st1 = (st', res)" by simp
    have "\<forall>x\<in>set kept. 0 \<le> x" if c: "2 \<le> w \<and> rs = int (length ord)"
    proof -
      from c have "int (ord ! t) < rs" using lt by simp
      from nsv[OF _ this] c have "\<forall>x\<in>set ns. 0 \<le> x" by simp
      with filter_defined_subset[OF Inr] show ?thesis by blast
    qed
    with merge_nodes_inv[OF p t vr inv1 m] show ?thesis by blast
  qed
qed

lemma build_pass_inv:
  assumes p: "perm_ord ord"
  shows "t \<le> length ord \<Longrightarrow> pass_inv ord t un st \<Longrightarrow>
         build_pass lim c8 w h rs un (rev (take t ord)) st = (st', None) \<Longrightarrow>
         pass_inv ord 0 un st'"
proof (induction t arbitrary: st)
  case 0
  then show ?case by simp
next
  case (Suc t)
  have t: "t < length ord" using Suc.prems(1) by simp
  have r: "rev (take (Suc t) ord) = ord ! t # rev (take t ord)"
    using t by (simp add: take_Suc_conv_app_nth)
  obtain st1 res1 where v: "visit_pixel lim c8 w h rs un (ord ! t) st = (st1, res1)" by force
  have inv1: "pass_inv ord t un st1" using visit_pixel_inv[OF p t Suc.prems(2) v] by simp
  from Suc.prems(3) r v have "res1 = None"
    and b: "build_pass lim c8 w h rs un (rev (take t ord)) st1 = (st', None)"
    by (auto split: option.splits)
  from Suc.IH[OF _ inv1 b] t show ?case by simp
qed

lemma initial_frame_inv:
  assumes p: "perm_ord ord" and l: "length ord = length (data img)"
  shows "pass_inv ord (length ord) (length (data img) + 2) (initial_frame img)"
  using perm_ord_nth_less[OF p] l
  by (simp add: pass_inv_def initial_frame_def Let_def ranked_def unvisited_def)

text \<open>No step of the pass writes to the image or to its flattened copy.\<close>

lemma merge_nodes_frame:
  "merge_nodes lim pi ns st = (st', res) \<Longrightarrow>
   image_arr st' = image_arr st \<and> flatten_image_arr st' = flatten_image_arr st"
proof (induction ns arbitrary: st)
  case Nil
  then show ?case by simp
next
  case (Cons x ns)
  show ?case
    using Cons.prems
    by (auto split: prod.splits sum.splits if_splits dest!: Cons.IH)
qed

lemma visit_pixel_frame:
  "visit_pixel lim c8 w h rs un pi st = (st', res) \<Longrightarrow>
   image_arr st' = image_arr st \<and> flatten_image_arr st' = flatten_image_arr st"
  unfolding visit_pixel_def Let_def
  by (auto split: sum.splits dest!: merge_nodes_frame)

lemma build_pass_frame:
  "build_pass lim c8 w h rs un pixels st = (st', res) \<Longrightarrow>
   image_arr st' = image_arr st \<and> flatten_image_arr st' = flatten_image_arr st"
proof (induction pixels arbitrary: st)
  case Nil
  then show ?case by simp
next
  case (Cons pi pixels)
  obtain st1 res1 where v: "visit_pixel lim c8 w h rs un pi st = (st1, res1)" by force
  show ?case
  proof (cases res1)
    case None
    with Cons.prems v have "build_pass lim c8 w h rs un pixels st1 = (st', res)" by simp
    from Cons.IH[OF this] visit_pixel_frame[OF v] show ?thesis by simp
  next
    case (Some e)
    with Cons.prems v have "st' = st1" by simp
    with visit_pixel_frame[OF v] show ?thesis by simp
  qed
qed

lemma construct_frame:
  "construct lim img c8 ord = (st, res) \<Longrightarrow>
   image_arr st = data img \<and> flatten_image_arr st = data img"
  unfolding construct_def Let_def
  by (auto dest!: build_pass_frame simp: initial_frame_def Let_def)

lemma construct_inv:
  assumes a: "is_argsort (data img) ord"
    and c: "construct lim img c8 ord = (st, None)"
  shows "pass_inv ord 0 (length (data img) + 2) st"
proof -
  from is_argsort_perm[OF a] have p: "perm_ord ord" and l: "length ord = length (data img)" by simp_all
  have b: "build_pass lim c8 (int (shape0 img)) (int (shape1 img)) (int (length (data img)))
             (length (data img) + 2) (rev (take (length ord) ord)) (initial_frame img) = (st, None)"
    using c by (simp add: construct_def Let_def)
  from build_pass_inv[OF p le_refl initial_frame_inv[OF p l] b] show ?thesis .
qed

section \<open>Canonization after the pass\<close>

lemma canonize_pixel_first:
  assumes p: "perm_ord ord" and l: "length img = length ord"
    and r: "ranked ord 0 ps" and m: "m < length ord"
    and c: "\<forall>i<m. canonical_at img ps (ord ! i)"
  shows "\<exists>ps'. canonize_pixel img ps (int (ord ! m)) = Inr ps' \<and> ranked ord 0 ps'
           \<and> (\<forall>i<Suc m. canonical_at img ps' (ord ! i))"
proof -
  let ?k = "ord ! m"
  have lp: "length ps = length ord" using r by (rule ranked_length)
  have k: "?k < length ord" using perm_ord_nth_less[OF p m] .
  from rankedD[OF r _ m] obtain j where j: "j \<le> m" "ps ! ?k = ord ! j" by auto
  have jn: "j < length ord" using j(1) m by simp
  from rankedD[OF r _ jn] obtain j' where j': "j' \<le> j" "ps ! (ord ! j) = ord ! j'" by auto
  have j'n: "j' < length ord" using j'(1) jn by simp
  have j'm: "j' \<le> m" using j'(1) j(1) by simp
  let ?ps' = "if img ! (ord ! j) = img ! (ord ! j') then ps[?k := ord ! j'] else ps"
  have step: "canonize_pixel img ps (int ?k) = Inr ?ps'"
    unfolding canonize_pixel_Inr_iff
    using k lp l j(2) j'(2) perm_ord_nth_less[OF p jn] perm_ord_nth_less[OF p j'n]
    by (simp add: row_index_of_nat)
  have rk: "ranked ord 0 ?ps'"
    using ranked_update[OF p r _ j'm m] r by simp
  have can: "canonical_at img ?ps' (ord ! i)" if i: "i < Suc m" for i
  proof (cases "img ! (ord ! j) = img ! (ord ! j')")
    case False
    show ?thesis
    proof (cases "i = m")
      case True
      then show ?thesis using False j(2) j'(2) by (simp add: canonical_at_def)
    next
      case False2: False
      with i have "i < m" by simp
      with c False show ?thesis by simp
    qed
  next
    case True
    have upd: "?ps' = ps[?k := ord ! j']" using True by simp
    have other: "ps[?k := ord ! j'] ! (ord ! a) = ps ! (ord ! a)" if "a < m" for a
    proof -
      have "ord ! m \<noteq> ord ! a" using perm_ord_nth_eq[OF p m, of a] that m by auto
      then show ?thesis by simp
    qed
    show ?thesis
    proof (cases "j = m")
      case jm: True
      then have "ord ! j' = ?k" using j(2) j'(2) by simp
      then have same: "ps[?k := ord ! j'] = ps" using j(2) jm by (metis list_update_id)
      show ?thesis
      proof (cases "i = m")
        case True
        then show ?thesis unfolding upd same using j(2) jm by (simp add: canonical_at_def)
      next
        case False
        with i have "i < m" by simp
        with c show ?thesis unfolding upd same by simp
      qed
    next
      case jm: False
      with j(1) have jlt: "j < m" by simp
      then have j'lt: "j' < m" using j'(1) by simp
      show ?thesis
      proof (cases "i = m")
        case True
        have cj: "canonical_at img ps (ord ! j)" using c jlt by simp
        have "ps[?k := ord ! j'] ! ?k = ord ! j'" using k lp by simp
        moreover have "ps[?k := ord ! j'] ! (ord ! j') = ps ! (ord ! j')" using other[OF j'lt] .
        ultimately show ?thesis
          unfolding upd using True cj j'(2) by (simp add: canonical_at_def Let_def)
      next
        case False
        with i have ilt: "i < m" by simp
        have ci: "canonical_at img ps (ord ! i)" using c ilt by simp
        have in1: "i < length ord" using ilt m by simp
        from rankedD[OF r _ in1] obtain q where q: "q \<le> i" "ps ! (ord ! i) = ord ! q" by auto
        have qlt: "q < m" using q(1) ilt by simp
        show ?thesis
          unfolding upd using ci other[OF ilt] other[OF qlt] q(2)
          by (simp add: canonical_at_def Let_def)
      qed
    qed
  qed
  from step rk can show ?thesis by blast
qed

lemma canonize_first:
  assumes p: "perm_ord ord" and l: "length img = length ord"
  shows "m \<le> length ord \<Longrightarrow> ranked ord 0 ps \<Longrightarrow> \<forall>i<m. canonical_at img ps (ord ! i) \<Longrightarrow>
         \<exists>ps'. canonize img ps (map int (drop m ord)) = (ps', None) \<and> ranked ord 0 ps'
           \<and> (\<forall>i<length ord. canonical_at img ps' (ord ! i))"
proof (induction "length ord - m" arbitrary: m ps)
  case 0
  then have "m = length ord" by simp
  with 0 show ?case by simp
next
  case (Suc d)
  then have m: "m < length ord" by simp
  from canonize_pixel_first[OF p l Suc.prems(2) m Suc.prems(3)] obtain ps1 where
    ps1: "canonize_pixel img ps (int (ord ! m)) = Inr ps1" "ranked ord 0 ps1"
      "\<forall>i<Suc m. canonical_at img ps1 (ord ! i)" by blast
  have d: "d = length ord - Suc m" using Suc.hyps(2) by simp
  from Suc.hyps(1)[OF d _ ps1(2) ps1(3)] m obtain ps' where
    ps': "canonize img ps1 (map int (drop (Suc m) ord)) = (ps', None)" "ranked ord 0 ps'"
      "\<forall>i<length ord. canonical_at img ps' (ord ! i)" by auto
  have "drop m ord = ord ! m # drop (Suc m) ord" using m by (simp add: Cons_nth_drop_Suc)
  then have "canonize img ps (map int (drop m ord)) = (ps', None)"
    using ps1(1) ps'(1) by simp
  with ps'(2,3) show ?case by blast
qed

lemma canonize_fixed:
  assumes p: "perm_ord ord" and l: "length img = length ord"
    and r: "ranked ord 0 ps" and c: "\<forall>k<length ord. canonical_at img ps k"
  shows "\<forall>x\<in>set xs. x < length ord \<Longrightarrow> canonize img ps (map int xs) = (ps, None)"
proof (induction xs)
  case Nil
  then show ?case by simp
next
  case (Cons k xs)
  then have k: "k < length ord" by simp
  have lp: "length ps = length ord" using r by (rule ranked_length)
  have q: "ps ! k < length ord" using ranked_entry_less[OF p r k] .
  have q2: "ps ! (ps ! k) < length ord" using ranked_entry_less[OF p r q] .
  have "canonical_at img ps k" using c k by simp
  then have fx: "img ! (ps ! k) = img ! (ps ! (ps ! k)) \<Longrightarrow> ps ! (ps ! k) = ps ! k"
    by (auto simp: canonical_at_def Let_def)
  have "ps = (if img ! (ps ! k) = img ! (ps ! (ps ! k)) then ps[k := ps ! (ps ! k)] else ps)"
  proof (cases "img ! (ps ! k) = img ! (ps ! (ps ! k))")
    case True
    from fx[OF True] have "ps[k := ps ! (ps ! k)] = ps" by (metis list_update_id)
    with True show ?thesis by simp
  next
    case False
    then show ?thesis by simp
  qed
  then have "canonize_pixel img ps (int k) = Inr ps"
    unfolding canonize_pixel_Inr_iff using k lp l q q2 by (simp add: row_index_of_nat)
  with Cons show ?case by simp
qed

lemma ranked_canonical_all:
  assumes p: "perm_ord ord" and c: "\<forall>i<length ord. canonical_at img ps (ord ! i)"
  shows "\<forall>k<length ord. canonical_at img ps k"
proof (intro allI impI)
  fix k assume "k < length ord"
  from perm_ord_row[OF p this] obtain i where "i < length ord" "ord ! i = k" by blast
  with c show "canonical_at img ps k" by auto
qed

lemma maxtree_with_result:
  assumes a: "is_argsort (data img) ord"
    and m: "snd (maxtree_with lim img c8 ord) = Inr (ps, out)"
  shows "out = ord \<and> ranked ord 0 ps \<and> (\<forall>k<length ord. canonical_at (data img) ps k)"
proof -
  from is_argsort_perm[OF a] have p: "perm_ord ord" and l: "length ord = length (data img)" by simp_all
  obtain st res where c: "construct lim img c8 ord = (st, res)" by force
  from m c have res: "res = None" by (auto simp: maxtree_with_def split: option.splits prod.splits)
  from construct_frame[OF c] have fl: "flatten_image_arr st = data img" by simp
  from construct_inv[OF a c[unfolded res]] have r: "ranked ord 0 (parents_arr st)"
    by (simp add: pass_inv_def)
  from canonize_first[OF p l[symmetric], of 0 "parents_arr st"] r obtain ps' where
    ps': "canonize (data img) (parents_arr st) (map int ord) = (ps', None)" "ranked ord 0 ps'"
      "\<forall>i<length ord. canonical_at (data img) ps' (ord ! i)" by auto
  from m c res fl ps'(1) have "ps = ps'" "out = ord" by (simp_all add: maxtree_with_def)
  with ps'(2) ranked_canonical_all[OF p ps'(3)] show ?thesis by simp
qed

lemma reaches_intensity:
  assumes a: "is_argsort xs ord"
  shows "reaches ps p q \<Longrightarrow> ranked ord 0 ps \<Longrightarrow> p < length xs \<Longrightarrow>
         q < length xs \<and> xs ! q \<le> xs ! p"
proof (induction rule: reaches.induct)
  case (reaches_self ps p)
  then show ?case by simp
next
  case (reaches_step p ps q)
  from ranked_intensity[OF a reaches_step.prems(1,2)]
  have s: "ps ! p < length xs" "xs ! (ps ! p) \<le> xs ! p" by simp_all
  from reaches_step.IH[OF reaches_step.prems(1) s(1)] s(2) show ?case by simp
qed

section \<open>Which calls return\<close>

text \<open>
  With at least two rows (\<open>shape0 \<ge> 2\<close>) and a recursion budget beyond the number of
  pixels, the call returns a parent array and the order array.
\<close>

lemma build_pass_returns:
  assumes p: "perm_ord ord" and w: "2 \<le> w" and rs: "rs = int (length ord)"
    and lim: "length ord < lim"
  shows "t \<le> length ord \<Longrightarrow> pass_inv ord t un st \<Longrightarrow>
         \<exists>st'. build_pass lim c8 w h rs un (rev (take t ord)) st = (st', None)"
proof (induction t arbitrary: st)
  case 0
  then show ?case by simp
next
  case (Suc t)
  have t: "t < length ord" using Suc.prems(1) by simp
  have r: "rev (take (Suc t) ord) = ord ! t # rev (take t ord)"
    using t by (simp add: take_Suc_conv_app_nth)
  obtain st1 res1 where v: "visit_pixel lim c8 w h rs un (ord ! t) st = (st1, res1)" by force
  from visit_pixel_inv[OF p t Suc.prems(2) v] w rs lim
  have inv1: "pass_inv ord t un st1" and res1: "res1 = None" by simp_all
  from Suc.IH[OF _ inv1] t obtain st' where
    "build_pass lim c8 w h rs un (rev (take t ord)) st1 = (st', None)" by auto
  with r v res1 show ?case by simp
qed

lemma maxtree_with_returns:
  assumes a: "is_argsort (data img) sorted_pixels"
    and w: "2 \<le> shape0 img" and lim: "length (data img) < limit"
  shows "\<exists>parents. snd (maxtree_with limit img connection8 sorted_pixels)
                     = Inr (parents, sorted_pixels)"
proof -
  from is_argsort_perm[OF a] have p: "perm_ord sorted_pixels"
    and l: "length sorted_pixels = length (data img)" by simp_all
  have w': "2 \<le> int (shape0 img)" using w by simp
  from build_pass_returns[OF p w' _ _ le_refl initial_frame_inv[OF p l],
      of "int (length (data img))" limit connection8 "int (shape1 img)"] l lim
  obtain st where c: "construct limit img connection8 sorted_pixels = (st, None)"
    by (auto simp: construct_def Let_def)
  from construct_frame[OF c] have fl: "flatten_image_arr st = data img" by simp
  from construct_inv[OF a c] have r: "ranked sorted_pixels 0 (parents_arr st)"
    by (simp add: pass_inv_def)
  from canonize_first[OF p l[symmetric], of 0 "parents_arr st"] r obtain ps' where
    "canonize (data img) (parents_arr st) (map int sorted_pixels) = (ps', None)" by auto
  with c fl show ?thesis by (simp add: maxtree_with_def)
qed

text \<open>
  With one row (\<open>shape0 = 1\<close>) and at least one pixel, the call raises: when the last
  pixel of the array is visited, its right neighbor is one past the end of \<open>parents\<close>.
\<close>

lemma visit_last_pixel_raises:
  assumes p: "perm_ord ord" and t: "t < length ord"
    and inv: "pass_inv ord (Suc t) un st"
    and last: "ord ! t = length ord - 1"
  shows "\<exists>st'. visit_pixel lim c8 1 h rs un (ord ! t) st = (st', Some IndexError)"
proof -
  have rp: "ranked ord (Suc t) (parents_arr st)" and rz: "ranked ord (Suc t) (zparents_arr st)"
    using inv by (simp_all add: pass_inv_def)
  have lt: "ord ! t < length ord" using perm_ord_nth_less[OF p t] .
  let ?ps = "(parents_arr st)[ord ! t := ord ! t]"
  let ?zp = "(zparents_arr st)[ord ! t := ord ! t]"
  have s1: "setitem (parents_arr st) (int (ord ! t)) (ord ! t) = Inr ?ps"
    using lt ranked_length[OF rp] by (simp add: setitem_of_nat)
  have s2: "setitem (zparents_arr st) (int (ord ! t)) (ord ! t) = Inr ?zp"
    using lt ranked_length[OF rz] by (simp add: setitem_of_nat)
  define ns where "ns = (if c8 then get_8_neighbors 1 h rs (int (ord ! t)) (npmod (int (ord ! t)) 1)
                         else get_4_neighbors 1 h rs (int (ord ! t)) (npmod (int (ord ! t)) 1))"
  have io: "int (ord ! t) = int (length ord) - 1" using last t by simp
  have mem: "int (length ord) \<in> set ns"
    unfolding ns_def io using last_pixel_neighbor[of "length ord" h rs] by simp
  have "row_index (length ?ps) (int (length ord)) = None"
    using ranked_length[OF rp] by (simp add: row_index_of_nat)
  from filter_defined_raises[OF mem this] have "filter_defined ?ps un ns = Inl IndexError" .
  then show ?thesis
    unfolding visit_pixel_def using s1 s2 by (simp add: Let_def ns_def)
qed

lemma build_pass_single_row_raises:
  assumes p: "perm_ord ord"
  shows "t \<le> length ord \<Longrightarrow> pass_inv ord t un st \<Longrightarrow> \<exists>i<t. ord ! i = length ord - 1 \<Longrightarrow>
         \<exists>st' e. build_pass lim c8 1 h rs un (rev (take t ord)) st = (st', Some e)"
proof (induction t arbitrary: st)
  case 0
  then show ?case by simp
next
  case (Suc t)
  have t: "t < length ord" using Suc.prems(1) by simp
  have r: "rev (take (Suc t) ord) = ord ! t # rev (take t ord)"
    using t by (simp add: take_Suc_conv_app_nth)
  obtain st1 res1 where v: "visit_pixel lim c8 1 h rs un (ord ! t) st = (st1, res1)" by force
  show ?case
  proof (cases res1)
    case (Some e)
    with r v show ?thesis by simp
  next
    case None
    have "ord ! t \<noteq> length ord - 1"
      using visit_last_pixel_raises[OF p t Suc.prems(2), of lim c8 h rs] v None by auto
    with Suc.prems(3) have ex: "\<exists>i<t. ord ! i = length ord - 1"
      by (metis less_Suc_eq)
    from visit_pixel_inv[OF p t Suc.prems(2) v] have "pass_inv ord t un st1" by simp
    from Suc.IH[OF _ this ex] t obtain st' e where
      "build_pass lim c8 1 h rs un (rev (take t ord)) st1 = (st', Some e)" by auto
    with r v None show ?thesis by simp
  qed
qed

lemma maxtree_with_single_row_raises:
  assumes a: "is_argsort (data img) sorted_pixels"
    and w: "shape0 img = 1" and ne: "0 < length (data img)"
  shows "\<exists>e. snd (maxtree_with limit img connection8 sorted_pixels) = Inl e"
proof -
  from is_argsort_perm[OF a] have p: "perm_ord sorted_pixels"
    and l: "length sorted_pixels = length (data img)" by simp_all
  have "length sorted_pixels - 1 < length sorted_pixels" using ne l by simp
  from perm_ord_row[OF p this] have ex: "\<exists>i<length sorted_pixels.
      sorted_pixels ! i = length sorted_pixels - 1" .
  from build_pass_single_row_raises[OF p le_refl initial_frame_inv[OF p l] ex,
      of limit connection8 "int (shape1 img)" "int (length (data img))"]
  obtain st e where "construct limit img connection8 sorted_pixels = (st, Some e)"
    using w by (auto simp: construct_def Let_def)
  then show ?thesis by (auto simp: maxtree_with_def)
qed

section \<open>The example image\<close>

lemma example_argsort: "argsort (data example_image) = [4, 5, 0, 1, 2, 3]"
  by (simp add: example_image_def argsort_def upt_rec)

lemma example_is_argsort: "is_argsort (data example_image) [4, 5, 0, 1, 2, 3]"
  using argsort_is_argsort[of "data example_image"] by (simp add: example_argsort)

lemma example_construct:
  "construct 1000 example_image True [4, 5, 0, 1, 2, 3]
   = (\<lparr>image_arr = [2, 2, 2, 2, 1, 1], flatten_image_arr = [2, 2, 2, 2, 1, 1],
       parents_arr = [5, 0, 1, 3, 4, 4], zparents_arr = [5, 0, 5, 0, 4, 4]\<rparr>, None)"
  by code_simp

lemma example_run:
  "snd (maxtree_with 1000 example_image True [4, 5, 0, 1, 2, 3])
   = Inr ([4, 0, 0, 3, 4, 4], [4, 5, 0, 1, 2, 3])"
  by code_simp

lemma example_berger:
  "snd (maxtree_berger 1000 example_image True)
   = Inr ([4, 0, 0, 3, 4, 4], [4, 5, 0, 1, 2, 3])"
  unfolding maxtree_berger_def example_argsort by (rule example_run)

text \<open>
  In the parent array of the example, pixel 3 is its own parent although its neighbor 5
  is darker: when pixel 2 met the root 3, the pass linked 3 below 2 in \<open>zparents\<close>
  only, the assignment to \<open>parents\<close> went to row 2 (see \<open>merge_nodes\<close>). A pixel
  that is its own parent is the darkest pixel of its tree, not always of its connected
  region.
\<close>

lemma example_root_with_darker_neighbor:
  "[4, 0, 0, 3, 4, 4] ! 3 = (3::nat)
   \<and> 5 \<in> set (get_8_neighbors 2 3 6 3 (npmod 3 2))
   \<and> data example_image ! 5 < data example_image ! 3"
  by (simp add: get_8_neighbors_def get_4_neighbors_def npmod_def example_image_def)

section \<open>Properties of the result\<close>

text \<open>
  The theorems of this section hold for every order array that numpy's sort can return
  (\<open>is_argsort\<close>), so for \<open>maxtree_berger\<close> whatever the order of equal intensities;
  \<open>maxtree_berger\<close> itself is \<open>maxtree_with\<close> on \<open>argsort\<close>, which satisfies
  \<open>is_argsort\<close>. They speak of the calls that return; \<open>maxtree_with_returns\<close> and
  \<open>maxtree_with_single_row_raises\<close> say which calls do.
\<close>

text \<open>
  C1. In the parent array that \<open>maxtree_berger\<close> returns, every pixel \<open>p\<close> has a
  parent that is a pixel of the image with an intensity at most that of \<open>p\<close>, for both
  connectivities.
\<close>

theorem maxtree_parent_intensity:
  assumes "is_argsort (data img) sorted_pixels"
    and "snd (maxtree_with limit img connection8 sorted_pixels) = Inr (parents, order)"
    and "p < length (data img)"
  shows "parents ! p < length (data img) \<and> data img ! (parents ! p) \<le> data img ! p"
  using ranked_intensity[OF assms(1) _ assms(3)] maxtree_with_result[OF assms(1,2)] by simp

theorem maxtree_parent_intensity_witness:
  "is_argsort (data example_image) [4, 5, 0, 1, 2, 3]
   \<and> snd (maxtree_berger 1000 example_image True)
       = Inr ([4, 0, 0, 3, 4, 4], [4, 5, 0, 1, 2, 3])
   \<and> (1::nat) < length (data example_image)
   \<and> [4, 0, 0, 3, 4, 4] ! 1 < length (data example_image)
   \<and> data example_image ! ([4, 0, 0, 3, 4, 4] ! 1) \<le> data example_image ! 1"
proof -
  have l: "(1::nat) < length (data example_image)" by (simp add: example_image_def)
  show ?thesis
    using example_is_argsort example_berger l
      maxtree_parent_intensity[OF example_is_argsort example_run l]
    by simp
qed

text \<open>
  C7. When the construction pass completes, the parent array has one entry per pixel and
  every entry is a pixel index, so none is the sentinel \<open>resolution + 2\<close>; the same holds
  of the parent array that is returned after canonization.
\<close>

theorem maxtree_no_sentinel:
  assumes a: "is_argsort (data img) sorted_pixels" and k: "k < length (data img)"
  shows "(construct limit img connection8 sorted_pixels = (st, None) \<longrightarrow>
            length (parents_arr st) = length (data img)
            \<and> parents_arr st ! k < length (data img)
            \<and> parents_arr st ! k \<noteq> length (data img) + 2)
       \<and> (snd (maxtree_with limit img connection8 sorted_pixels) = Inr (parents, order) \<longrightarrow>
            length parents = length (data img)
            \<and> parents ! k < length (data img)
            \<and> parents ! k \<noteq> length (data img) + 2)"
proof -
  from is_argsort_perm[OF a] have p: "perm_ord sorted_pixels"
    and l: "length sorted_pixels = length (data img)" by simp_all
  have gen: "length ps = length (data img) \<and> ps ! k < length (data img)
             \<and> ps ! k \<noteq> length (data img) + 2"
    if r: "ranked sorted_pixels 0 ps" for ps
  proof -
    have "length ps = length (data img)" using ranked_length[OF r] l by simp
    moreover have "ps ! k < length (data img)"
      using ranked_entry_less[OF p r, of k] l k by simp
    ultimately show ?thesis by simp
  qed
  show ?thesis
  proof (intro conjI impI)
    assume "construct limit img connection8 sorted_pixels = (st, None)"
    from construct_inv[OF a this] have "ranked sorted_pixels 0 (parents_arr st)"
      by (simp add: pass_inv_def)
    from gen[OF this] show "length (parents_arr st) = length (data img)"
      "parents_arr st ! k < length (data img)"
      "parents_arr st ! k \<noteq> length (data img) + 2" by simp_all
  next
    assume "snd (maxtree_with limit img connection8 sorted_pixels) = Inr (parents, order)"
    from maxtree_with_result[OF a this] have "ranked sorted_pixels 0 parents" by simp
    from gen[OF this] show "length parents = length (data img)"
      "parents ! k < length (data img)"
      "parents ! k \<noteq> length (data img) + 2" by simp_all
  qed
qed

theorem maxtree_no_sentinel_witness:
  "is_argsort (data example_image) [4, 5, 0, 1, 2, 3]
   \<and> (0::nat) < length (data example_image)
   \<and> parents_arr (fst (construct 1000 example_image True [4, 5, 0, 1, 2, 3]))
       = [5, 0, 1, 3, 4, 4]
   \<and> snd (construct 1000 example_image True [4, 5, 0, 1, 2, 3]) = None
   \<and> [5, 0, 1, 3, 4, 4] ! 0 < length (data example_image)
   \<and> [5, 0, 1, 3, 4, 4] ! 0 \<noteq> length (data example_image) + 2
   \<and> snd (maxtree_berger 1000 example_image True)
       = Inr ([4, 0, 0, 3, 4, 4], [4, 5, 0, 1, 2, 3])
   \<and> [4, 0, 0, 3, 4, 4] ! 0 < length (data example_image)
   \<and> [4, 0, 0, 3, 4, 4] ! 0 \<noteq> length (data example_image) + 2"
proof -
  have l: "(0::nat) < length (data example_image)" by (simp add: example_image_def)
  show ?thesis
    using example_is_argsort l example_construct example_run example_berger
      maxtree_no_sentinel[of example_image "[4, 5, 0, 1, 2, 3]" 0 1000 True
        "fst (construct 1000 example_image True [4, 5, 0, 1, 2, 3])"
        "[4, 0, 0, 3, 4, 4]" "[4, 5, 0, 1, 2, 3]"]
    by simp
qed

text \<open>
  For a non-empty image, the returned parent array has a pixel that is its own parent, and
  every pixel that is its own parent has the least intensity among the pixels from which
  following parent pointers arrives at it: it is the darkest pixel of its tree.
\<close>

lemma root_darkest_of_tree:
  assumes a: "is_argsort (data img) sorted_pixels"
    and ne: "0 < length (data img)"
    and m: "snd (maxtree_with limit img connection8 sorted_pixels) = Inr (parents, order)"
  shows "(\<exists>r<length (data img). parents ! r = r)
       \<and> (\<forall>r p. r < length (data img) \<and> parents ! r = r \<and> p < length (data img)
               \<and> reaches parents p r \<longrightarrow> data img ! r \<le> data img ! p)"
proof -
  from is_argsort_perm[OF a] have p: "perm_ord sorted_pixels"
    and l: "length sorted_pixels = length (data img)" by simp_all
  from maxtree_with_result[OF a m] have r: "ranked sorted_pixels 0 parents" by simp
  have n: "0 < length sorted_pixels" using ne l by simp
  have "sorted_pixels ! 0 < length (data img)" using perm_ord_nth_less[OF p n] l by simp
  with ranked_first_root[OF r n] have "\<exists>r<length (data img). parents ! r = r" by blast
  moreover have "\<forall>r p. r < length (data img) \<and> parents ! r = r \<and> p < length (data img)
               \<and> reaches parents p r \<longrightarrow> data img ! r \<le> data img ! p"
    using reaches_intensity[OF a _ r] by blast
  ultimately show ?thesis by (intro conjI)
qed

text \<open>
  C8. Every pixel that is its own parent in the returned array is to be the darkest pixel
  of its connected region. On the image of two rows \<open>4 3\<close> and \<open>2 1\<close> with
  8-connectivity the code returns the parents 0, 2, 3, 3: pixel 0, of intensity 4, is
  its own parent, although the enumerator itself lists pixel 3, of intensity 1, among its
  neighbors. When pixel 1 met the root 0, \<open>zparents[nei_root] = parents[nei_root] = pi\<close>
  linked 0 below 1 in \<open>zparents\<close> and then wrote to \<open>parents[1]\<close>, since
  \<open>nei_root\<close> is a view of the row just written (see \<open>merge_nodes\<close>); \<open>parents[0]\<close>
  was never written again.
\<close>

theorem maxtree_root_beside_darker_pixel:
  "snd (maxtree_berger 64 \<lparr>shape0 = 2, shape1 = 2, data = [4, 3, 2, 1]\<rparr> True)
     = Inr ([0, 2, 3, 3], [3, 2, 1, 0])
   \<and> [0, 2, 3, 3] ! 0 = (0::nat)
   \<and> 3 \<in> set (get_8_neighbors 2 2 4 0 (npmod 0 2))
   \<and> [4, 3, 2, 1 :: int] ! 3 < [4, 3, 2, 1] ! 0"
proof -
  have run: "snd (maxtree_berger 64 \<lparr>shape0 = 2, shape1 = 2, data = [4, 3, 2, 1]\<rparr> True)
     = Inr ([0, 2, 3, 3], [3, 2, 1, 0])"
    by code_simp
  have nb: "3 \<in> set (get_8_neighbors 2 2 4 0 (npmod 0 2))"
    by (simp add: get_8_neighbors_def get_4_neighbors_def npmod_def)
  from run nb show ?thesis by simp
qed

text \<open>
  C6. On the parent array that the construction pass produces, \<open>canonize\<close> in ascending
  order ends without an exception, and running it a second time on its result ends with
  the same array.
\<close>

theorem canonize_idempotent_after_pass:
  assumes a: "is_argsort (data img) sorted_pixels"
    and c: "construct limit img connection8 sorted_pixels = (st, None)"
  shows "snd (canonize (flatten_image_arr st) (parents_arr st) (map int sorted_pixels)) = None
       \<and> canonize (flatten_image_arr st)
           (fst (canonize (flatten_image_arr st) (parents_arr st) (map int sorted_pixels)))
           (map int sorted_pixels)
         = canonize (flatten_image_arr st) (parents_arr st) (map int sorted_pixels)"
proof -
  from is_argsort_perm[OF a] have p: "perm_ord sorted_pixels"
    and l: "length sorted_pixels = length (data img)" by simp_all
  from construct_frame[OF c] have fl: "flatten_image_arr st = data img" by simp
  from construct_inv[OF a c] have r: "ranked sorted_pixels 0 (parents_arr st)"
    by (simp add: pass_inv_def)
  from canonize_first[OF p l[symmetric], of 0 "parents_arr st"] r obtain ps' where
    ps': "canonize (data img) (parents_arr st) (map int sorted_pixels) = (ps', None)"
      "ranked sorted_pixels 0 ps'"
      "\<forall>i<length sorted_pixels. canonical_at (data img) ps' (sorted_pixels ! i)" by auto
  have "\<forall>x\<in>set sorted_pixels. x < length sorted_pixels"
    using p by (simp add: perm_ord_def)
  from canonize_fixed[OF p l[symmetric] ps'(2) ranked_canonical_all[OF p ps'(3)] this]
  have "canonize (data img) ps' (map int sorted_pixels) = (ps', None)" .
  with ps'(1) fl show ?thesis by simp
qed

theorem canonize_idempotent_after_pass_witness:
  "is_argsort (data example_image) [4, 5, 0, 1, 2, 3]
   \<and> construct 1000 example_image True [4, 5, 0, 1, 2, 3]
       = (\<lparr>image_arr = [2, 2, 2, 2, 1, 1], flatten_image_arr = [2, 2, 2, 2, 1, 1],
           parents_arr = [5, 0, 1, 3, 4, 4], zparents_arr = [5, 0, 5, 0, 4, 4]\<rparr>, None)
   \<and> canonize [2, 2, 2, 2, 1, 1] [5, 0, 1, 3, 4, 4] [4, 5, 0, 1, 2, 3]
       = ([4, 0, 0, 3, 4, 4], None)
   \<and> canonize [2, 2, 2, 2, 1, 1] [4, 0, 0, 3, 4, 4] [4, 5, 0, 1, 2, 3]
       = ([4, 0, 0, 3, 4, 4], None)"
proof -
  have c1: "canonize [2, 2, 2, 2, 1, 1] [5, 0, 1, 3, 4, 4] [4, 5, 0, 1, 2, 3]
            = ([4, 0, 0, 3, 4, 4], None)"
    by code_simp
  show ?thesis
    using example_is_argsort example_construct c1
      canonize_idempotent_after_pass[OF example_is_argsort example_construct]
    by simp
qed

text \<open>
  C10. \<open>maxtree_berger\<close> leaves the buffer of the image it is given as it was, whether
  it returns or raises and whatever order the sort gives to equal intensities: the pass and
  the canonization write to \<open>parents\<close> and \<open>zparents\<close> only, and neither the image
  nor its flattened copy changes.
\<close>

theorem maxtree_berger_keeps_image:
  "image_arr (fst (maxtree_berger limit img connection8)) = data img
   \<and> flatten_image_arr (fst (maxtree_berger limit img connection8)) = data img
   \<and> image_arr (fst (maxtree_with limit img connection8 sorted_pixels)) = data img
   \<and> flatten_image_arr (fst (maxtree_with limit img connection8 sorted_pixels)) = data img"
proof -
  have w: "image_arr (fst (maxtree_with limit img connection8 ord)) = data img
           \<and> flatten_image_arr (fst (maxtree_with limit img connection8 ord)) = data img"
    for ord
  proof -
    obtain st res where c: "construct limit img connection8 ord = (st, res)"
      by force
    from construct_frame[OF c] c show ?thesis
      by (auto simp: maxtree_with_def split: option.splits prod.splits)
  qed
  from w[of sorted_pixels] w[of "argsort (data img)"] show ?thesis
    by (simp add: maxtree_berger_def)
qed

end
